theory Spec2Isabelle
  imports Main "HOL-Library.List_Lexorder" "HOL-Library.Char_ord"
begin

section \<open>Temporal windowing and resampling engine (\<open>DatasetProcessing\<close>)\<close>

text \<open>
  A shallow embedding of \<open>src/inference/Dataset_processing.py\<close>. Python integers are
  \<^typ>\<open>int\<close> (\<open>%\<close> and \<open>//\<close> are the flooring operations, as \<open>mod\<close> and \<open>div\<close> are on
  \<^typ>\<open>int\<close>), exceptions are values of \<open>py_error\<close>, and a loop that may not return is a
  \<^theory_text>\<open>partial_function\<close> in the option monad, so that \<open>None\<close> stands for divergence.
\<close>

datatype py_error = ValueError | ZeroDivisionError | KeyError

subsection \<open>Factorizer: \<open>factors\<close>\<close>

text \<open>
  \<^verbatim>\<open>
  factors = []
  while n % 2 == 0:
      factors.append(2); n //= 2
  factor = 3
  while factor * factor <= n:
      while n % factor == 0:
          factors.append(factor); n //= factor
      factor += 2
  if n > 1:
      factors.append(n)
  return factors
  \<close>
  Each loop is one function on the pair of the list built so far and the current \<open>n\<close>.
  On \<open>n = 0\<close> the first loop never leaves (\<open>0 % 2 == 0\<close> and \<open>0 // 2 == 0\<close>).
  The function is the same in \<open>src/algorithms/Classification.py\<close>.
\<close>

partial_function (option) factors_two :: "int list \<Rightarrow> int \<Rightarrow> (int list \<times> int) option" where
  "factors_two fs n =
     (if n mod 2 = 0 then factors_two (fs @ [2]) (n div 2) else Some (fs, n))"

partial_function (option) factors_inner :: "int \<Rightarrow> int list \<Rightarrow> int \<Rightarrow> (int list \<times> int) option" where
  "factors_inner factor fs n =
     (if n mod factor = 0 then factors_inner factor (fs @ [factor]) (n div factor)
      else Some (fs, n))"

partial_function (option) factors_odd :: "int \<Rightarrow> int list \<Rightarrow> int \<Rightarrow> (int list \<times> int) option" where
  "factors_odd factor fs n =
     (if factor * factor \<le> n
      then Option.bind (factors_inner factor fs n) (\<lambda>(fs', n'). factors_odd (factor + 2) fs' n')
      else Some (fs, n))"

declare factors_two.simps [code] factors_inner.simps [code] factors_odd.simps [code]

definition factors :: "int \<Rightarrow> int list option" where
  "factors n =
     Option.bind (factors_two [] n) (\<lambda>(fs, n1).
     Option.bind (factors_odd 3 fs n1) (\<lambda>(fs2, n2).
       Some (if n2 > 1 then fs2 @ [n2] else fs2)))"

subsection \<open>UnderSampler: \<open>under_sample\<close>\<close>

text \<open>
  A row of the working table, reduced to what the windowing code reads: its index label
  and the columns \<open>serial_number\<close>, \<open>predict_val\<close> and \<open>validate_val\<close>. A missing cell
  (\<open>NaN\<close>) is \<open>None\<close>.
\<close>

record row =
  idx :: int
  serial_number :: string
  predict_val :: "int option"
  validate_val :: "int option"

text \<open>
  \<open>Series.rolling(k).max()\<close>: with the default \<open>min_periods = k\<close> the value at position
  \<open>i\<close> is the maximum of rows \<open>i - k + 1 .. i\<close> when all \<open>k\<close> of them exist and none is
  missing, and is missing otherwise.
\<close>

definition window_max :: "int option list \<Rightarrow> int option" where
  "window_max w =
     (case those w of None \<Rightarrow> None | Some [] \<Rightarrow> None | Some (v # vs) \<Rightarrow> Some (fold max vs v))"

definition rolling_max :: "nat \<Rightarrow> int option list \<Rightarrow> int option list" where
  "rolling_max k vs =
     map (\<lambda>i. if i + 1 < k then None else window_max (take k (drop (i + 1 - k) vs)))
       [0..<length vs]"

text \<open>
  A slice \<open>[start:stop:step]\<close> with a positive step: a negative bound counts from the
  end, both bounds are clipped to \<open>0 .. len\<close>, and the positions are \<open>start\<close>,
  \<open>start + step\<close>, \<dots> below \<open>stop\<close>.
\<close>

definition adjust_index :: "int \<Rightarrow> nat \<Rightarrow> nat" where
  "adjust_index i len = (if i < 0 then nat (max (i + int len) 0) else min (nat i) len)"

definition slice_positions :: "int \<Rightarrow> int \<Rightarrow> int \<Rightarrow> nat \<Rightarrow> nat list" where
  "slice_positions start stop step len =
     (let a = adjust_index start len; b = adjust_index stop len
      in filter (\<lambda>p. (p - a) mod nat step = 0) [a..<b])"

definition py_slice :: "int \<Rightarrow> int \<Rightarrow> int \<Rightarrow> 'a list \<Rightarrow> 'a list" where
  "py_slice start stop step xs = map (\<lambda>p. xs ! p) (slice_positions start stop step (length xs))"

text \<open>
  \<^verbatim>\<open>
  indexes = (df.predict_val.rolling(down_factor).max()
             [((len(df) - 1) % down_factor):-7:down_factor].index.tolist())
  return indexes
  \<close>
  \<open>rolled_slice\<close> is the sliced series, each entry an index label with its rolling
  maximum; \<open>under_sample\<close> keeps the labels. \<open>rolling\<close> refuses a negative window and
  \<open>% 0\<close> raises, so a factor below 1 is an error.
\<close>

definition rolled_slice :: "row list \<Rightarrow> int \<Rightarrow> (int \<times> int option) list" where
  "rolled_slice df down_factor =
     py_slice ((int (length df) - 1) mod down_factor) (- 7) down_factor
       (zip (map idx df) (rolling_max (nat down_factor) (map predict_val df)))"

definition under_sample :: "row list \<Rightarrow> int \<Rightarrow> py_error + int list" where
  "under_sample df down_factor =
     (if down_factor < 0 then Inl ValueError
      else if down_factor = 0 then Inl ZeroDivisionError
      else Inr (map fst (rolled_slice df down_factor)))"

text \<open>The positions the slice of \<open>under_sample\<close> visits in a group of \<open>len\<close> rows.\<close>

definition selected_positions :: "nat \<Rightarrow> int \<Rightarrow> nat list" where
  "selected_positions len down_factor =
     slice_positions ((int len - 1) mod down_factor) (- 7) down_factor len"

subsection \<open>WindowBuilder: \<open>perform_windowing\<close>\<close>

text \<open>
  One down-sampling pass of the Dynamic and Hybrid branches:
  \<^verbatim>\<open>
  indexes = windowed_df.groupby(serials).apply(self.under_sample, down_factor)
  windowed_df = windowed_df.loc[np.concatenate(indexes.values.tolist(), axis=0), :]
  \<close>
  \<open>serials\<close> is the \<open>serial_number\<close> column of the table, matched to the frame by index
  label; here each row carries its serial number. \<open>groupby\<close> visits the serial numbers
  in sorted order, each group holding its rows in table order; \<open>np.concatenate\<close> of no
  list at all raises; \<open>.loc\<close> returns, label by label, the rows that carry the label, and
  raises on a label no row carries.
\<close>

fun collect :: "(py_error + 'a) list \<Rightarrow> py_error + 'a list" where
  "collect [] = Inr []"
| "collect (Inl e # rs) = Inl e"
| "collect (Inr x # rs) = (case collect rs of Inl e \<Rightarrow> Inl e | Inr xs \<Rightarrow> Inr (x # xs))"

definition groupby_serial :: "row list \<Rightarrow> row list list" where
  "groupby_serial df =
     map (\<lambda>s. filter (\<lambda>r. serial_number r = s) df) (sort (remdups (map serial_number df)))"

definition loc :: "row list \<Rightarrow> int list \<Rightarrow> py_error + row list" where
  "loc df labels =
     (if \<forall>l\<in>set labels. l \<in> idx ` set df
      then Inr (concat (map (\<lambda>l. filter (\<lambda>r. idx r = l) df) labels))
      else Inl KeyError)"

definition under_sample_pass :: "row list \<Rightarrow> int \<Rightarrow> py_error + row list" where
  "under_sample_pass windowed_df down_factor =
     (case collect (map (\<lambda>g. under_sample g down_factor) (groupby_serial windowed_df)) of
        Inl e \<Rightarrow> Inl e
      | Inr indexes \<Rightarrow>
          if indexes = [] then Inl ValueError else loc windowed_df (concat indexes))"







text \<open>
  The column labels of the windowed frame. Each
  \<open>dd.concat([self.df.shift(i + 1), windowed_df], axis=1)\<close> puts the columns of the table
  in front of those collected so far; Full does it \<open>window_dim - 1\<close> times
  (\<open>np.arange\<close> of a number below 1 is empty), Dynamic \<open>down_factor - 1\<close> times for each
  factor of \<open>window_dim\<close>. Down-sampling removes rows only.
\<close>

definition shift_concat :: "string list \<Rightarrow> nat \<Rightarrow> string list \<Rightarrow> string list" where
  "shift_concat base n cols = ((\<lambda>c. base @ c) ^^ n) cols"

definition full_columns :: "string list \<Rightarrow> int \<Rightarrow> string list" where
  "full_columns base window_dim = shift_concat base (nat (window_dim - 1)) base"


subsection \<open>ColumnReconciler: \<open>rename_columns\<close>\<close>

text \<open>
  \<^verbatim>\<open>
  cols = []; count = {}
  for column in df.columns:
      if column not in count:
          count[column] = 0
      count[column] += 1
      new_column = f"{column}_{count[column]}" if count[column] > 1 else column
      cols.append(new_column)
  df.columns = cols
  df.sort_index(axis=1, inplace=True)
  \<close>
  \<open>str_nat\<close> is the decimal numeral of the f-string. The model is the list of column
  labels; strings are ordered as Python orders them, character by character.
\<close>

fun str_nat :: "nat \<Rightarrow> string" where
  "str_nat n =
     (if n < 10 then [char_of (48 + n)] else str_nat (n div 10) @ [char_of (48 + n mod 10)])"

fun rename_loop :: "string list \<Rightarrow> (string \<Rightarrow> nat option) \<Rightarrow> string list \<Rightarrow> string list" where
  "rename_loop [] count cols = cols"
| "rename_loop (column # rest) count cols =
     (let n = (case count column of None \<Rightarrow> 0 | Some c \<Rightarrow> c) + 1;
          new_column = (if n > 1 then column @ ''_'' @ str_nat n else column)
      in rename_loop rest (count(column \<mapsto> n)) (cols @ [new_column]))"

definition rename_columns :: "string list \<Rightarrow> string list" where
  "rename_columns columns = sort (rename_loop columns Map.empty [])"

subsection \<open>ValidityFilter: the essential-column step of \<open>preprocess_dataset\<close>\<close>

text \<open>
  A frame is its column labels and its rows, a row giving the cell under each label
  (\<open>None\<close> when missing).
  \<^verbatim>\<open>
  essential_columns = ['date', 'serial_number', 'capacity_bytes']
  missing_columns = [col for col in essential_columns if col not in df.columns]
  if not missing_columns:
      rows_before = df.shape[0]
      df.dropna(subset=essential_columns, inplace=True)
      rows_after = df.shape[0]
      rows_dropped = rows_before - rows_after
      print(f"Dropped {rows_dropped} rows")
  else:
      print(f"Columns {missing_columns} do not exist in the DataFrame.")
  \<close>
  The printed line is returned as a \<open>diagnostic\<close>. The step before it only drops
  columns named \<open>serial_number_N\<close>, \<open>date_N\<close>, \<open>capacity_bytes_N\<close> or \<open>model_N\<close>, so it
  does not change which of the three essential columns are present.
\<close>

record 'v frame =
  columns :: "string list"
  rows :: "(string \<Rightarrow> 'v option) list"

datatype diagnostic = Dropped nat | MissingColumns "string list"

definition essential_columns :: "string list" where
  "essential_columns = [''date'', ''serial_number'', ''capacity_bytes'']"

definition dropna_subset :: "string list \<Rightarrow> 'v frame \<Rightarrow> 'v frame" where
  "dropna_subset names df = df\<lparr>rows := filter (\<lambda>r. \<forall>col\<in>set names. r col \<noteq> None) (rows df)\<rparr>"

definition drop_missing_essential :: "'v frame \<Rightarrow> 'v frame \<times> diagnostic" where
  "drop_missing_essential df =
     (let missing_columns = filter (\<lambda>col. col \<notin> set (columns df)) essential_columns
      in if missing_columns = []
         then (let rows_before = length (rows df);
                   df' = dropna_subset essential_columns df;
                   rows_after = length (rows df');
                   rows_dropped = rows_before - rows_after
               in (df', Dropped rows_dropped))
         else (df, MissingColumns missing_columns))"
subsection \<open>Reshaper\<close>

text \<open>
  \<^verbatim>\<open>
  data_dim = sum(number - 1 for number in self.factors(self.window_dim)) + 1
             if self.overlap != 1 else self.window_dim
  \<close>
  The conditional expression binds weakest, so \<open>+ 1\<close> belongs to its first branch, and
  \<open>factors\<close> is only called when \<open>overlap != 1\<close>.
\<close>

definition data_dim :: "int \<Rightarrow> int \<Rightarrow> int option" where
  "data_dim overlap window_dim =
     (if overlap \<noteq> 1
      then map_option (\<lambda>fs. sum_list (map (\<lambda>number. number - 1) fs) + 1) (factors window_dim)
      else Some window_dim)"




subsection \<open>Notions of the specification\<close>

text \<open>Primality, as an executable check of every candidate divisor below \<open>p\<close>.\<close>

definition is_prime :: "int \<Rightarrow> bool" where
  "is_prime p \<longleftrightarrow> 1 < p \<and> (\<forall>d \<in> {2..<p}. \<not> d dvd p)"

text \<open>
  The positions the specification gives for \<open>under_sample\<close>: the offset
  \<open>(len - 1) mod k\<close>, then every \<open>k\<close>-th position after it, below \<open>len - 7\<close>.
\<close>

definition stride_positions :: "nat \<Rightarrow> int \<Rightarrow> nat list" where
  "stride_positions len k =
     (let offset = nat ((int len - 1) mod k); stop = len - 7
      in map (\<lambda>i. offset + i * nat k) [0..<(stop - offset + nat k - 1) div nat k])"

text \<open>
  The renaming rule of the specification: the \<open>i\<close>-th occurrence of a name keeps the name
  for \<open>i = 1\<close> and becomes \<open>col_i\<close> for \<open>i \<ge> 2\<close>; \<open>occurrence cs j\<close> counts the columns up
  to position \<open>j\<close> that carry the name of the column at position \<open>j\<close>.
\<close>

definition suffixed :: "string \<Rightarrow> nat \<Rightarrow> string" where
  "suffixed col i = (if i > 1 then col @ ''_'' @ str_nat i else col)"

definition occurrence :: "string list \<Rightarrow> nat \<Rightarrow> nat" where
  "occurrence cs j = count_list (take (Suc j) cs) (cs ! j)"

text \<open>The number a decimal numeral stands for.\<close>

definition digits_value :: "string \<Rightarrow> nat" where
  "digits_value s = foldl (\<lambda>a c. 10 * a + (of_char c - 48)) 0 s"

text \<open>
  A column named like what the \<open>i\<close>-th occurrence of another column is renamed to
  (\<open>2 \<le> i\<close>, and the other column occurs at least \<open>i\<close> times).
\<close>

definition name_clash :: "string list \<Rightarrow> bool" where
  "name_clash cs \<longleftrightarrow>
     (\<exists>c\<in>set cs. \<exists>c'\<in>set cs. \<exists>i\<in>{2..count_list cs c'}. c = c' @ ''_'' @ str_nat i)"

subsection \<open>Concrete inputs\<close>

text \<open>
  A group of \<open>n\<close> rows of one device with labels \<open>100, 101, \<dots>\<close>; the same group with
  other \<open>predict_val\<close> values, one of them missing; a table of a healthy device \<open>B\<close> with
  5 rows and a failing device \<open>A\<close> with 9 rows; a device whose last 4 of 9 rows have
  \<open>validate_val = 1\<close>; the columns of a table whose features are
  named \<open>x\<close> and \<open>x_2\<close>; and a frame without the column \<open>capacity_bytes\<close>.
\<close>

definition example_group :: "nat \<Rightarrow> row list" where
  "example_group n =
     map (\<lambda>i. \<lparr>idx = 100 + int i, serial_number = ''A'', predict_val = Some 0,
               validate_val = Some 0\<rparr>) [0..<n]"

definition example_group_alt :: "nat \<Rightarrow> row list" where
  "example_group_alt n =
     map (\<lambda>i. \<lparr>idx = 100 + int i, serial_number = ''A'',
               predict_val = (if i = 0 then None else Some 1), validate_val = Some 1\<rparr>) [0..<n]"

definition two_devices :: "row list" where
  "two_devices =
     map (\<lambda>i. \<lparr>idx = int i, serial_number = ''B'', predict_val = Some 0,
               validate_val = Some 0\<rparr>) [0..<5]
     @ map (\<lambda>i. \<lparr>idx = int i, serial_number = ''A'', predict_val = Some 0,
               validate_val = Some 1\<rparr>) [5..<14]"


definition base_example :: "string list" where
  "base_example = [''index'', ''x'', ''x_2'', ''serial_number'', ''date'', ''failure'',
     ''predict_val'', ''validate_val'', ''model'', ''capacity_bytes'']"

definition frame_example :: "int frame" where
  "frame_example = \<lparr>columns = [''date'', ''serial_number'', ''smart_5''],
     rows = [(\<lambda>c. if c = ''date'' then Some 1 else if c = ''smart_5'' then Some 7 else None)]\<rparr>"

section \<open>Properties\<close>

subsection \<open>Factorizer\<close>

lemma factors_two_total:
  "0 < n \<Longrightarrow> \<exists>gs n'. factors_two fs n = Some (fs @ gs, n') \<and> set gs \<subseteq> {2}
      \<and> prod_list gs * n' = n \<and> 0 < n' \<and> odd n'"
proof (induction "nat n" arbitrary: n fs rule: less_induct)
  case less
  show ?case
  proof (cases "n mod 2 = 0")
    case True
    with less.prems have pos: "0 < n div 2" and "n div 2 < n"
      by presburger+
    then have dec: "nat (n div 2) < nat n" by simp
    from less.hyps [OF dec pos, of "fs @ [2]"]
    obtain gs n' where r: "factors_two (fs @ [2]) (n div 2) = Some ((fs @ [2]) @ gs, n')"
      and g: "set gs \<subseteq> {2}" and p: "prod_list gs * n' = n div 2" and n': "0 < n'" "odd n'"
      by blast
    from True p have "prod_list (2 # gs) * n' = n" by auto
    with r g n' True show ?thesis
      by (subst factors_two.simps) (intro exI [of _ "2 # gs"] exI [of _ n'], simp)
  next
    case False
    then have "odd n" by presburger
    with False less.prems show ?thesis
      by (subst factors_two.simps) (intro exI [of _ "[]"] exI [of _ n], simp)
  qed
qed

lemma factors_inner_total:
  "0 < n \<Longrightarrow> 1 < f \<Longrightarrow> \<exists>gs n'. factors_inner f fs n = Some (fs @ gs, n') \<and> set gs \<subseteq> {f}
      \<and> prod_list gs * n' = n \<and> 0 < n' \<and> \<not> f dvd n'"
proof (induction "nat n" arbitrary: n fs rule: less_induct)
  case less
  show ?case
  proof (cases "n mod f = 0")
    case True
    then have fn: "f * (n div f) = n" by auto
    with less.prems have pos: "0 < n div f"
      by (metis mult_zero_right not_less_iff_gr_or_eq pos_imp_zdiv_neg_iff less_le_trans zero_less_one less_imp_le)
    from fn less.prems pos have "n div f < n"
      by (metis int_div_less_self) 
    with pos have dec: "nat (n div f) < nat n" by simp
    from less.hyps [OF dec pos less.prems(2), of "fs @ [f]"]
    obtain gs n' where r: "factors_inner f (fs @ [f]) (n div f) = Some ((fs @ [f]) @ gs, n')"
      and g: "set gs \<subseteq> {f}" and p: "prod_list gs * n' = n div f" and n': "0 < n'" "\<not> f dvd n'"
      by blast
    from fn p have "prod_list (f # gs) * n' = n" by (simp add: mult.assoc)
    with r g n' True show ?thesis
      by (subst factors_inner.simps) (intro exI [of _ "f # gs"] exI [of _ n'], simp)
  next
    case False
    then have "\<not> f dvd n" by (simp add: dvd_eq_mod_eq_0)
    with False less.prems show ?thesis
      by (subst factors_inner.simps) (intro exI [of _ "[]"] exI [of _ n], simp)
  qed
qed


lemma member_dvd_prod_list: "(x::int) \<in> set xs \<Longrightarrow> x dvd prod_list xs"
  by (induction xs) auto

lemma sorted_constant: "set xs \<subseteq> {c::int} \<Longrightarrow> sorted xs"
  by (induction xs) auto

lemma trial_division_prime:
  assumes n: "1 < n" and small: "\<forall>d. 2 \<le> d \<and> d < f \<longrightarrow> \<not> d dvd n"
    and sq: "n < f * f" and f: "0 \<le> f"
  shows "is_prime n"
  unfolding is_prime_def
proof (intro conjI ballI notI)
  show "1 < n" by (rule n)
next
  fix d assume d: "d \<in> {2..<n}" and dv: "d dvd n"
  then obtain e where e: "n = d * e" by (auto elim: dvdE)
  from d have dpos: "0 < d" by simp
  from n e have "0 < d * e" by simp
  with dpos have epos: "0 < e" by (simp add: zero_less_mult_iff)
  have "e \<noteq> 1" using d e by auto
  with epos have e2: "2 \<le> e" by simp
  have "e dvd n" using e by simp
  with small e2 have fe: "f \<le> e" by (meson not_le_imp_less)
  from small d dv have fd: "f \<le> d" by (meson atLeastLessThan_iff not_le_imp_less)
  from fd fe f have "f * f \<le> d * e" by (intro mult_mono) auto
  with e sq show False by simp
qed

lemma factors_odd_total:
  "0 < n \<Longrightarrow> odd n \<Longrightarrow> 3 \<le> f \<Longrightarrow> \<forall>d. 2 \<le> d \<and> d < f \<longrightarrow> \<not> d dvd n \<Longrightarrow> odd f \<Longrightarrow>
   \<exists>gs n'. factors_odd f fs n = Some (fs @ gs, n') \<and> prod_list gs * n' = n \<and> 0 < n'
     \<and> (\<forall>g\<in>set gs. is_prime g \<and> f \<le> g) \<and> sorted gs
     \<and> (n' = 1 \<or> (is_prime n' \<and> f \<le> n' \<and> (\<forall>g\<in>set gs. g \<le> n')))"
proof (induction "nat (n - f)" arbitrary: n f fs rule: less_induct)
  case less
  note npos = \<open>0 < n\<close> and nodd = \<open>odd n\<close> and f3 = \<open>3 \<le> f\<close> and fodd = \<open>odd f\<close>
    and small = \<open>\<forall>d. 2 \<le> d \<and> d < f \<longrightarrow> \<not> d dvd n\<close>
  show ?case
  proof (cases "f * f \<le> n")
    case True
    from f3 have "f * 3 \<le> f * f" by (intro mult_left_mono) auto
    with True f3 have fn: "f < n" by linarith
    from factors_inner_total [of n f fs] npos f3
    obtain hs n1 where inner: "factors_inner f fs n = Some (fs @ hs, n1)"
      and hs: "set hs \<subseteq> {f}" and prod1: "prod_list hs * n1 = n" and n1pos: "0 < n1"
      and nf: "\<not> f dvd n1"
      by (metis less_le_trans one_less_numeral_iff semiring_norm(77) less_imp_le not_le order_trans zless_add1_eq)
    have n1dvd: "n1 dvd n" using prod1 by (metis dvd_triv_right)
    with nodd have n1odd: "odd n1" by (meson dvd_trans)
    from n1dvd npos have n1le: "n1 \<le> n" by (simp add: zdvd_imp_le)
    have small1: "\<forall>d. 2 \<le> d \<and> d < f + 2 \<longrightarrow> \<not> d dvd n1"
    proof (intro allI impI notI)
      fix d assume d: "2 \<le> d \<and> d < f + 2" and dv: "d dvd n1"
      from dv n1dvd have dn: "d dvd n" by (rule dvd_trans)
      from d consider "d < f" | "d = f" | "d = f + 1" by linarith
      then show False
      proof cases
        case 1 with small d dn show False by blast
      next
        case 2 with nf dv show False by simp
      next
        case 3
        with fodd have "even d" by simp
        with dv n1odd show False by (meson dvd_trans)
      qed
    qed
    have dec: "nat (n1 - (f + 2)) < nat (n - f)" using n1le fn by simp
    from less.hyps [OF dec n1pos n1odd _ small1, of "fs @ hs"] f3 fodd
    obtain gs n' where outer: "factors_odd (f + 2) (fs @ hs) n1 = Some ((fs @ hs) @ gs, n')"
      and prod2: "prod_list gs * n' = n1" and n'pos: "0 < n'"
      and gs: "\<forall>g\<in>set gs. is_prime g \<and> f + 2 \<le> g" and sgs: "sorted gs"
      and last: "n' = 1 \<or> (is_prime n' \<and> f + 2 \<le> n' \<and> (\<forall>g\<in>set gs. g \<le> n'))"
      by auto
    have fprime: "is_prime f" if "hs \<noteq> []"
    proof -
      from that hs have "f \<in> set hs" by (cases hs) auto
      then have "f dvd prod_list hs" by (rule member_dvd_prod_list)
      then have fdn: "f dvd n" using prod1 by (metis dvd_mult2)
      show ?thesis unfolding is_prime_def
      proof (intro conjI ballI notI)
        show "1 < f" using f3 by simp
      next
        fix d assume "d \<in> {2..<f}" and "d dvd f"
        with fdn small show False by (meson atLeastLessThan_iff dvd_trans)
      qed
    qed
    have r: "factors_odd f fs n = Some (fs @ (hs @ gs), n')"
      using True inner outer by (subst factors_odd.simps) simp
    have p: "prod_list (hs @ gs) * n' = n"
      using prod1 prod2 by (simp add: mult.assoc)
    have pr: "\<forall>g\<in>set (hs @ gs). is_prime g \<and> f \<le> g"
    proof
      fix g assume "g \<in> set (hs @ gs)"
      then consider "g \<in> set hs" | "g \<in> set gs" by auto
      then show "is_prime g \<and> f \<le> g"
      proof cases
        case 1
        with hs have "g = f" "hs \<noteq> []" by auto
        with fprime show ?thesis by simp
      next
        case 2
        with gs show ?thesis by fastforce
      qed
    qed
    have so: "sorted (hs @ gs)"
      using hs gs sgs sorted_constant [OF hs] by (auto simp: sorted_append subset_iff)
    have la: "n' = 1 \<or> (is_prime n' \<and> f \<le> n' \<and> (\<forall>g\<in>set (hs @ gs). g \<le> n'))"
      using last hs by (auto simp: subset_iff)
    from r p n'pos pr so la show ?thesis by blast
  next
    case False
    then have sq: "n < f * f" by simp
    have la: "n = 1 \<or> (is_prime n \<and> f \<le> n)"
    proof (cases "n = 1")
      case False
      with npos have n1: "1 < n" by simp
      have "is_prime n" using trial_division_prime [OF n1 small sq] f3 by simp
      moreover have "f \<le> n"
      proof (rule ccontr)
        assume "\<not> f \<le> n"
        with n1 have "2 \<le> n \<and> n < f" by simp
        with small have "\<not> n dvd n" by blast
        then show False by simp
      qed
      ultimately show ?thesis by simp
    qed simp
    with False npos show ?thesis
      by (subst factors_odd.simps) (intro exI [of _ "[]"] exI [of _ n], simp)
  qed
qed

lemma factors_total_prime:
  "0 < n \<Longrightarrow> \<exists>fs. factors n = Some fs \<and> (\<forall>p\<in>set fs. is_prime p) \<and> sorted fs \<and> prod_list fs = n"
proof -
  assume npos: "0 < n"
  from factors_two_total [OF npos, of "[]"]
  obtain ts n1 where two: "factors_two [] n = Some (ts, n1)" and ts: "set ts \<subseteq> {2}"
    and prod1: "prod_list ts * n1 = n" and n1pos: "0 < n1" and n1odd: "odd n1"
    by auto
  have small: "\<forall>d. 2 \<le> d \<and> d < 3 \<longrightarrow> \<not> d dvd n1"
  proof (intro allI impI)
    fix d :: int assume "2 \<le> d \<and> d < 3"
    then have "d = 2" by simp
    with n1odd show "\<not> d dvd n1" by simp
  qed
  from factors_odd_total [OF n1pos n1odd _ small, of ts]
  obtain gs n2 where odd: "factors_odd 3 ts n1 = Some (ts @ gs, n2)"
    and prod2: "prod_list gs * n2 = n1" and n2pos: "0 < n2"
    and gs: "\<forall>g\<in>set gs. is_prime g \<and> 3 \<le> g" and sgs: "sorted gs"
    and last: "n2 = 1 \<or> (is_prime n2 \<and> 3 \<le> n2 \<and> (\<forall>g\<in>set gs. g \<le> n2))"
    by auto
  have two_prime: "is_prime 2" by (simp add: is_prime_def)
  let ?fs = "if n2 > 1 then (ts @ gs) @ [n2] else ts @ gs"
  have r: "factors n = Some ?fs" using two odd by (simp add: factors_def)
  have pr: "\<forall>p\<in>set ?fs. is_prime p"
    using ts gs last two_prime by (auto simp: subset_iff)
  have s0: "sorted (ts @ gs)"
    using ts gs sgs sorted_constant [OF ts] by (fastforce simp: sorted_append subset_iff)
  have so: "sorted ?fs"
    using s0 ts last by (fastforce simp: sorted_append subset_iff)
  have p: "prod_list ?fs = n"
    using prod1 prod2 n2pos by (auto simp: mult.assoc)
  from r pr so p show ?thesis by blast
qed

text \<open>
  Claim C8. For every positive integer \<open>n\<close>, \<open>factors n\<close> returns (the loops all end) the
  prime factors of \<open>n\<close> in ascending order, each as often as it divides \<open>n\<close>, so that the
  product of the list is \<open>n\<close>; in particular \<open>factors 1 = []\<close> and
  \<open>factors 12 = [2, 2, 3]\<close>.
\<close>

theorem factors_correct:
  "(0 < n \<longrightarrow> (\<exists>fs. factors n = Some fs \<and> (\<forall>p\<in>set fs. is_prime p) \<and> sorted fs
        \<and> prod_list fs = n))
   \<and> factors 1 = Some [] \<and> factors 12 = Some [2, 2, 3]"
proof (intro conjI impI)
  assume "0 < n"
  then show "\<exists>fs. factors n = Some fs \<and> (\<forall>p\<in>set fs. is_prime p) \<and> sorted fs \<and> prod_list fs = n"
    by (rule factors_total_prime)
next
  show "factors 1 = Some []" by code_simp
next
  show "factors 12 = Some [2, 2, 3]" by code_simp
qed

theorem factors_correct_witness:
  "(0::int) < 360 \<and> factors 360 = Some [2, 2, 2, 3, 3, 5]
   \<and> is_prime 2 \<and> is_prime 3 \<and> is_prime 5 \<and> sorted [2, 2, 2, 3, 3, 5 :: int]
   \<and> prod_list [2, 2, 2, 3, 3, 5] = (360::int)"
proof -
  have e: "factors 360 = Some [2, 2, 2, 3, 3, 5]" by code_simp
  from factors_correct [of 360] e show ?thesis by simp
qed

subsection \<open>Effective window depth\<close>

text \<open>
  Claim C1. The depth the Reshaper uses is a function of \<open>window_dim\<close> and the overlap
  policy alone: it is \<open>window_dim\<close> for Full (\<open>overlap = 1\<close>), and for Dynamic and Hybrid
  (\<open>overlap \<noteq> 1\<close>) it is one more than the sum of \<open>f - 1\<close> over the prime factors \<open>f\<close> of
  \<open>window_dim\<close>, which \<open>factors\<close> returns; \<open>window_dim = 12\<close> gives depth 5.
\<close>

theorem data_dim_depth:
  "data_dim 1 w = Some w
   \<and> (ov \<noteq> 1 \<longrightarrow> 0 < w \<longrightarrow>
        (\<exists>fs. factors w = Some fs \<and> (\<forall>p\<in>set fs. is_prime p) \<and> sorted fs \<and> prod_list fs = w
           \<and> data_dim ov w = Some ((\<Sum>f\<leftarrow>fs. f - 1) + 1)))
   \<and> (ov \<noteq> 1 \<longrightarrow> data_dim ov 12 = Some 5)"
proof (intro conjI impI)
  show "data_dim 1 w = Some w" by (simp add: data_dim_def)
next
  assume ov: "ov \<noteq> 1" and w: "0 < w"
  from factors_total_prime [OF w] obtain fs where fs: "factors w = Some fs"
    and rest: "(\<forall>p\<in>set fs. is_prime p) \<and> sorted fs \<and> prod_list fs = w" by blast
  from ov fs have "data_dim ov w = Some ((\<Sum>f\<leftarrow>fs. f - 1) + 1)" by (simp add: data_dim_def)
  with fs rest show "\<exists>fs. factors w = Some fs \<and> (\<forall>p\<in>set fs. is_prime p) \<and> sorted fs
      \<and> prod_list fs = w \<and> data_dim ov w = Some ((\<Sum>f\<leftarrow>fs. f - 1) + 1)" by blast
next
  assume ov: "ov \<noteq> 1"
  have "factors 12 = Some [2, 2, 3]" by code_simp
  with ov show "data_dim ov 12 = Some 5" by (simp add: data_dim_def)
qed

theorem data_dim_depth_witness:
  "data_dim 1 12 = Some 12 \<and> (2::int) \<noteq> 1 \<and> (0::int) < 12 \<and> factors 12 = Some [2, 2, 3]
   \<and> data_dim 2 12 = Some 5 \<and> data_dim 3 12 = Some 5"
proof -
  have e: "factors 12 = Some [2, 2, 3]" by code_simp
  from data_dim_depth [of 12 2] data_dim_depth [of 12 3] e show ?thesis by simp
qed





subsection \<open>UnderSampler\<close>

lemma adjust_index_le: "adjust_index i len \<le> len"
  by (auto simp: adjust_index_def max_def)

lemma slice_positions_less: "p \<in> set (slice_positions start stop step len) \<Longrightarrow> p < len"
  using adjust_index_le [of stop len] by (auto simp: slice_positions_def Let_def)

lemma length_rolling_max: "length (rolling_max k vs) = length vs"
  by (simp add: rolling_max_def)

lemma py_slice_zip:
  assumes "length xs = length ys"
  shows "py_slice a b c (zip xs ys) = map (\<lambda>p. (xs ! p, ys ! p)) (slice_positions a b c (length xs))"
  using assms slice_positions_less [of _ a b c "length xs"] by (simp add: py_slice_def)

lemma rolled_slice_positions:
  "rolled_slice df k =
     map (\<lambda>p. (idx (df ! p), rolling_max (nat k) (map predict_val df) ! p))
       (selected_positions (length df) k)"
proof -
  have len: "length (map idx df) = length (rolling_max (nat k) (map predict_val df))"
    by (simp add: length_rolling_max)
  have "rolled_slice df k =
      map (\<lambda>p. (map idx df ! p, rolling_max (nat k) (map predict_val df) ! p))
        (selected_positions (length df) k)"
    unfolding rolled_slice_def selected_positions_def using py_slice_zip [OF len] by simp
  also have "\<dots> = map (\<lambda>p. (idx (df ! p), rolling_max (nat k) (map predict_val df) ! p))
        (selected_positions (length df) k)"
    using slice_positions_less by (auto simp: selected_positions_def)
  finally show ?thesis .
qed

lemma under_sample_index:
  "0 < k \<Longrightarrow> under_sample df k = Inr (map (\<lambda>p. idx (df ! p)) (selected_positions (length df) k))"
  by (simp add: under_sample_def rolled_slice_positions comp_def)

lemma filter_upt_from: "filter (\<lambda>p. s \<le> p \<and> Q p) [0..<b] = filter Q [s..<b]"
  by (induction b) auto

lemma filter_upt_below: "b \<le> n \<Longrightarrow> filter (\<lambda>p. Q p \<and> p < b) [0..<n] = filter Q [0..<b]"
proof (induction n)
  case 0 then show ?case by simp
next
  case (Suc n)
  show ?case
  proof (cases "b = Suc n")
    case True
    have "filter (\<lambda>p. Q p \<and> p < Suc n) [0..<Suc n] = filter Q [0..<Suc n]"
      by (rule filter_cong) auto
    with True show ?thesis by simp
  next
    case False
    with Suc.prems have "b \<le> n" by simp
    with Suc.IH show ?thesis by simp
  qed
qed

lemma mod_offset_nat:
  fixes p s k :: nat
  assumes "s < k" "s \<le> p"
  shows "(p - s) mod k = 0 \<longleftrightarrow> p mod k = s"
proof
  assume "(p - s) mod k = 0"
  then obtain q where "p - s = k * q" by (auto simp: mod_eq_0_iff_dvd elim: dvdE)
  with assms have "p = s + k * q" by simp
  with assms show "p mod k = s" by simp
next
  assume "p mod k = s"
  then have "p = k * (p div k) + s" by (metis mult_div_mod_eq)
  then have "p - s = k * (p div k)" by simp
  then show "(p - s) mod k = 0" by simp
qed

lemma selected_positions_eq:
  assumes k: "0 < k"
  shows "selected_positions L k =
    filter (\<lambda>p. int p mod k = (int L - 1) mod k \<and> p + 7 < L) [0..<L]"
proof (cases "L \<le> 7")
  case True
  then have "adjust_index (- 7) L = 0" by (simp add: adjust_index_def)
  moreover from True have "filter (\<lambda>p. int p mod k = (int L - 1) mod k \<and> p + 7 < L) [0..<L] = []"
    by (auto simp: filter_empty_conv)
  ultimately show ?thesis by (simp add: selected_positions_def slice_positions_def Let_def)
next
  case False
  define s where "s = nat ((int L - 1) mod k)"
  from k have s_int: "int s = (int L - 1) mod k" by (simp add: s_def)
  from k have s_lt: "s < nat k" unfolding s_def by (simp add: nat_less_iff)
  from False have "(int L - 1) mod k \<le> int L - 1" using k by (intro zmod_le_nonneg_dividend) simp
  then have s_le: "s \<le> L - 1" unfolding s_def by linarith
  from False have stop: "adjust_index (- 7) L = L - 7" by (simp add: adjust_index_def)
  from k have "0 \<le> (int L - 1) mod k" by simp
  with s_le have start: "adjust_index ((int L - 1) mod k) L = s"
    by (simp add: adjust_index_def s_def)
  have "selected_positions L k = filter (\<lambda>p. (p - s) mod nat k = 0) [s..<L - 7]"
    by (simp add: selected_positions_def slice_positions_def Let_def start stop)
  also have "\<dots> = filter (\<lambda>p. p mod nat k = s) [s..<L - 7]"
    by (rule filter_cong) (auto simp: mod_offset_nat [OF s_lt])
  also have "\<dots> = filter (\<lambda>p. s \<le> p \<and> p mod nat k = s) [0..<L - 7]"
    by (simp add: filter_upt_from)
  also have "\<dots> = filter (\<lambda>p. int p mod k = (int L - 1) mod k) [0..<L - 7]"
  proof (rule filter_cong)
    fix p
    have "int (p mod nat k) = int p mod k" using k by (simp add: zmod_int)
    then have "p mod nat k = s \<longleftrightarrow> int p mod k = (int L - 1) mod k"
      using s_int by (metis of_nat_eq_iff)
    moreover have "p mod nat k = s \<Longrightarrow> s \<le> p" by (metis mod_less_eq_dividend)
    ultimately show "(s \<le> p \<and> p mod nat k = s) = (int p mod k = (int L - 1) mod k)" by blast
  qed simp
  also have "\<dots> = filter (\<lambda>p. int p mod k = (int L - 1) mod k \<and> p < L - 7) [0..<L]"
    by (simp add: filter_upt_below)
  also have "\<dots> = filter (\<lambda>p. int p mod k = (int L - 1) mod k \<and> p + 7 < L) [0..<L]"
    by (rule filter_cong) auto
  finally show ?thesis .
qed


lemma ceil_div_step:
  fixes m k :: nat
  assumes "0 < k"
  shows "(m + k - 1) div k = (if m mod k = 0 then m div k else m div k + 1)"
proof (cases "m mod k = 0")
  case True
  then obtain q where q: "m = k * q" by (auto simp: mod_eq_0_iff_dvd elim: dvdE)
  have "(m + k - 1) div k = q"
  proof (rule div_nat_eqI)
    show "k * q \<le> m + k - 1" using q assms by simp
    show "m + k - 1 < k * Suc q" using q assms by simp
  qed
  with True q assms show ?thesis by simp
next
  case False
  then have r: "1 \<le> m mod k" by simp
  have m: "m = k * (m div k) + m mod k" by simp
  have "(m + k - 1) div k = m div k + 1"
  proof (rule div_nat_eqI)
    from m r have "k * (m div k) + 1 \<le> m" by linarith
    then show "k * (m div k + 1) \<le> m + k - 1" by (simp add: algebra_simps)
    have "m mod k < k" using assms by simp
    with m have "m < k * (m div k) + k" by linarith
    then show "m + k - 1 < k * Suc (m div k + 1)" using assms by (simp add: algebra_simps)
  qed
  with False show ?thesis by simp
qed

lemma stride_filter_map:
  fixes k :: nat
  assumes k: "0 < k"
  shows "filter (\<lambda>p. (p - s) mod k = 0) [s..<s + m] = map (\<lambda>i. s + i * k) [0..<(m + k - 1) div k]"
proof (induction m)
  case 0
  from k show ?case by simp
next
  case (Suc m)
  have up: "[s..<s + Suc m] = [s..<s + m] @ [s + m]" by simp
  have d: "(Suc m + k - 1) div k = m div k + 1" using k by (simp add: div_add_self2)
  note c = ceil_div_step [OF k, of m]
  show ?case
  proof (cases "m mod k = 0")
    case True
    then have "m div k * k = m" by auto
    moreover from True c have "(m + k - 1) div k = m div k" by simp
    ultimately show ?thesis using True Suc.IH
      unfolding up d by simp
  next
    case False
    with c have "(m + k - 1) div k = m div k + 1" by simp
    with False Suc.IH show ?thesis
      unfolding up d by simp
  qed
qed

lemma selected_positions_stride:
  assumes k: "0 < k"
  shows "selected_positions L k = stride_positions L k"
proof -
  define s where "s = nat ((int L - 1) mod k)"
  have nk: "0 < nat k" using k by simp
  have stop: "adjust_index (- 7) L = L - 7" by (auto simp: adjust_index_def max_def)
  show ?thesis
  proof (cases "L - 7 \<le> s")
    case True
    then have "adjust_index (- 7) L \<le> adjust_index ((int L - 1) mod k) L \<or> L \<le> 7"
      using k by (auto simp: stop adjust_index_def s_def min_def)
    then have "selected_positions L k = []"
      by (auto simp: selected_positions_def slice_positions_def Let_def stop)
    moreover from True nk have "(L - 7 - s + nat k - 1) div nat k = 0" by simp
    ultimately show ?thesis by (simp add: stride_positions_def s_def Let_def)
  next
    case False
    then have L: "7 < L" and sb: "s < L - 7" by simp_all
    from k have "0 \<le> (int L - 1) mod k" by simp
    with sb have start: "adjust_index ((int L - 1) mod k) L = s"
      by (simp add: adjust_index_def s_def)
    from sb have b: "L - 7 = s + (L - 7 - s)" by simp
    have "selected_positions L k = filter (\<lambda>p. (p - s) mod nat k = 0) [s..<s + (L - 7 - s)]"
      using b by (simp add: selected_positions_def slice_positions_def Let_def start stop)
    also have "\<dots> = map (\<lambda>i. s + i * nat k) [0..<(L - 7 - s + nat k - 1) div nat k]"
      by (rule stride_filter_map [OF nk])
    finally show ?thesis by (simp add: stride_positions_def s_def Let_def)
  qed
qed

lemma rolling_max_nth:
  "p < length vs \<Longrightarrow>
   rolling_max k vs ! p = (if p + 1 < k then None else window_max (take k (drop (p + 1 - k) vs)))"
  by (simp add: rolling_max_def)

lemma those_present: "None \<notin> set xs \<Longrightarrow> those xs = Some (map the xs)"
proof (induction xs)
  case Nil
  show ?case by simp
next
  case (Cons a xs)
  then obtain y where "a = Some y" by (cases a) auto
  with Cons show ?case by simp
qed

lemma window_max_defined:
  assumes "w \<noteq> []" "None \<notin> set w"
  shows "window_max w \<noteq> None"
proof -
  from assms(1) have "map the w \<noteq> []" by simp
  then obtain v vs where "map the w = v # vs" by (cases "map the w") auto
  with those_present [OF assms(2)] show ?thesis by (simp add: window_max_def)
qed

lemma rolling_max_defined_iff:
  assumes k: "0 < k" and p: "p < length vs" and vs: "None \<notin> set vs"
  shows "rolling_max k vs ! p \<noteq> None \<longleftrightarrow> k \<le> p + 1"
proof (cases "p + 1 < k")
  case True
  with p show ?thesis by (simp add: rolling_max_nth)
next
  case False
  let ?w = "take k (drop (p + 1 - k) vs)"
  from False k p have "?w \<noteq> []" by simp
  moreover have "set ?w \<subseteq> set vs" by (meson set_drop_subset set_take_subset subset_trans)
  with vs have "None \<notin> set ?w" by blast
  ultimately have "window_max ?w \<noteq> None" by (rule window_max_defined)
  with False p show ?thesis by (simp add: rolling_max_nth)
qed

lemma selected_positions_less: "p \<in> set (selected_positions L k) \<Longrightarrow> p < L"
  unfolding selected_positions_def by (rule slice_positions_less)

lemma selected_positions_offset:
  assumes k: "0 < k" and p: "p \<in> set (selected_positions L k)"
  shows "nat ((int L - 1) mod k) \<le> p"
proof -
  from p k have "int p mod k = (int L - 1) mod k" by (simp add: selected_positions_eq)
  moreover have "int p mod k \<le> int p" using k by (intro zmod_le_nonneg_dividend) simp
  ultimately show ?thesis by linarith
qed

lemma offset_when_divides:
  assumes k: "0 < k" and L: "0 < L" and dv: "k dvd int L"
  shows "(int L - 1) mod k = k - 1"
proof -
  from dv have "int L mod k = 0" by (simp add: dvd_eq_mod_eq_0)
  then have "(int L - 1) mod k = (0 - 1) mod k" by (metis mod_diff_left_eq)
  also have "\<dots> = k - 1" using k by (simp add: zmod_minus1)
  finally show ?thesis .
qed

lemma under_sample_short:
  assumes "0 < k" "length df \<le> 7"
  shows "under_sample df k = Inr []"
  using assms by (simp add: under_sample_index selected_positions_eq filter_empty_conv)

lemma collect_under_sample:
  "0 < k \<Longrightarrow> collect (map (\<lambda>g. under_sample g k) gs) =
     Inr (map (\<lambda>g. map (\<lambda>p. idx (g ! p)) (selected_positions (length g) k)) gs)"
  by (induction gs) (simp_all add: under_sample_index)

lemma groupby_serial_member:
  "g \<in> set (groupby_serial df) \<Longrightarrow> \<exists>s. g = filter (\<lambda>r. serial_number r = s) df"
  by (auto simp: groupby_serial_def)

lemma groupby_serial_nonempty: "df \<noteq> [] \<Longrightarrow> groupby_serial df \<noteq> []"
  by (cases df) (auto simp: groupby_serial_def simp flip: set_empty)

lemma under_sample_pass_retains:
  assumes k: "0 < k" and ne: "df \<noteq> []" and dist: "distinct (map idx df)"
  shows "\<exists>out. under_sample_pass df k = Inr out
    \<and> (\<forall>r\<in>set out. r \<in> set df
          \<and> 7 < length (filter (\<lambda>r'. serial_number r' = serial_number r) df))"
proof -
  let ?sel = "\<lambda>g. map (\<lambda>p. idx (g ! p)) (selected_positions (length g) k)"
  let ?labels = "concat (map ?sel (groupby_serial df))"
  have inj: "inj_on idx (set df)" using dist by (simp add: distinct_map)
  have origin: "\<exists>s p. 7 < length (filter (\<lambda>r. serial_number r = s) df)
        \<and> p < length (filter (\<lambda>r. serial_number r = s) df)
        \<and> l = idx (filter (\<lambda>r. serial_number r = s) df ! p)" if "l \<in> set ?labels" for l
  proof -
    from that obtain g p where g: "g \<in> set (groupby_serial df)"
      and p: "p \<in> set (selected_positions (length g) k)" and l: "l = idx (g ! p)" by auto
    from groupby_serial_member [OF g] obtain s where s: "g = filter (\<lambda>r. serial_number r = s) df"
      by blast
    from p k have "p + 7 < length g" by (simp add: selected_positions_eq)
    with s l show ?thesis by (intro exI [of _ s] exI [of _ p]) auto
  qed
  have known: "\<forall>l\<in>set ?labels. l \<in> idx ` set df"
  proof
    fix l assume "l \<in> set ?labels"
    from origin [OF this] obtain s p where p: "p < length (filter (\<lambda>r. serial_number r = s) df)"
      and l: "l = idx (filter (\<lambda>r. serial_number r = s) df ! p)" by blast
    from p have "filter (\<lambda>r. serial_number r = s) df ! p \<in> set (filter (\<lambda>r. serial_number r = s) df)"
      by (rule nth_mem)
    then have "filter (\<lambda>r. serial_number r = s) df ! p \<in> set df" by simp
    with l show "l \<in> idx ` set df" by blast
  qed
  let ?out = "concat (map (\<lambda>l. filter (\<lambda>r. idx r = l) df) ?labels)"
  have run: "under_sample_pass df k = Inr ?out"
    using k known groupby_serial_nonempty [OF ne]
    by (simp add: under_sample_pass_def collect_under_sample loc_def)
  have "r \<in> set df \<and> 7 < length (filter (\<lambda>r'. serial_number r' = serial_number r) df)"
    if "r \<in> set ?out" for r
  proof -
    from that obtain l where l: "l \<in> set ?labels" and r: "r \<in> set df" "idx r = l" by auto
    from origin [OF l] obtain s p where big: "7 < length (filter (\<lambda>r. serial_number r = s) df)"
      and p: "p < length (filter (\<lambda>r. serial_number r = s) df)"
      and l': "l = idx (filter (\<lambda>r. serial_number r = s) df ! p)" by blast
    let ?r' = "filter (\<lambda>r. serial_number r = s) df ! p"
    from p have mem: "?r' \<in> set (filter (\<lambda>r. serial_number r = s) df)" by (rule nth_mem)
    then have "?r' \<in> set df" and ser: "serial_number ?r' = s" by simp_all
    with inj r l' have "r = ?r'" by (auto dest: inj_onD)
    with ser big r show ?thesis by simp
  qed
  with run show ?thesis by blast
qed

text \<open>
  Claim C5. For a group of \<open>L\<close> rows and a down-sampling factor \<open>k\<close> (a positive integer),
  \<open>under_sample\<close> returns exactly the index labels of the rows at the positions
  \<open>(L - 1) mod k\<close>, then every \<open>k\<close>-th position after it, ending below \<open>L - 7\<close>, so that none
  of the last 7 positions is selected. These are the positions \<open>p < L - 7\<close> congruent to
  \<open>L - 1\<close> modulo \<open>k\<close>.
\<close>

theorem under_sample_stride:
  assumes k: "0 < k"
  shows "under_sample df k = Inr (map (\<lambda>p. idx (df ! p)) (stride_positions (length df) k))
    \<and> (\<forall>p. p \<in> set (stride_positions (length df) k) \<longleftrightarrow>
          p + 7 < length df \<and> int p mod k = (int (length df) - 1) mod k)"
proof
  show "under_sample df k = Inr (map (\<lambda>p. idx (df ! p)) (stride_positions (length df) k))"
    using k by (simp add: under_sample_index selected_positions_stride)
  show "\<forall>p. p \<in> set (stride_positions (length df) k) \<longleftrightarrow>
          p + 7 < length df \<and> int p mod k = (int (length df) - 1) mod k"
    using k by (auto simp: selected_positions_stride [symmetric] selected_positions_eq)
qed

theorem under_sample_stride_witness:
  "(0::int) < 3 \<and> stride_positions 22 3 = [0, 3, 6, 9, 12]
   \<and> under_sample (example_group 22) 3 = Inr [100, 103, 106, 109, 112]"
proof -
  have p: "stride_positions 22 3 = [0, 3, 6, 9, 12]" by code_simp
  have l: "length (example_group 22) = 22" by (simp add: example_group_def)
  have i: "map (\<lambda>p. idx (example_group 22 ! p)) [0, 3, 6, 9, 12] = [100, 103, 106, 109, 112]"
    by (simp add: example_group_def)
  from under_sample_stride [of 3 "example_group 22"] p l i show ?thesis by simp
qed

text \<open>
  Claim C9. Two groups with the same index labels (hence the same length) get the same
  answer from \<open>under_sample\<close> for every factor, whatever their \<open>predict_val\<close> columns
  hold: the rolling maximum has no influence on the labels retained.
\<close>

theorem under_sample_values_irrelevant:
  assumes "map idx df1 = map idx df2"
  shows "under_sample df1 k = under_sample df2 k"
proof (cases "0 < k")
  case True
  from assms have len: "length df1 = length df2" by (metis length_map)
  have "map (\<lambda>p. idx (df1 ! p)) (selected_positions (length df1) k)
      = map (\<lambda>p. idx (df2 ! p)) (selected_positions (length df1) k)"
  proof (rule map_cong)
    fix p assume "p \<in> set (selected_positions (length df1) k)"
    then have "p < length df1" by (rule selected_positions_less)
    with len have "map idx df1 ! p = idx (df1 ! p)" "map idx df2 ! p = idx (df2 ! p)" by simp_all
    with assms show "idx (df1 ! p) = idx (df2 ! p)" by simp
  qed simp
  with True len show ?thesis by (simp add: under_sample_index)
next
  case False
  then show ?thesis by (simp add: under_sample_def)
qed

theorem under_sample_values_irrelevant_witness:
  "map idx (example_group 11) = map idx (example_group_alt 11)
   \<and> map predict_val (example_group 11) \<noteq> map predict_val (example_group_alt 11)
   \<and> under_sample (example_group 11) 2 = under_sample (example_group_alt 11) 2"
proof -
  have a: "map idx (example_group 11) = map idx (example_group_alt 11)"
    by (simp add: example_group_def example_group_alt_def)
  have b: "map predict_val (example_group 11) \<noteq> map predict_val (example_group_alt 11)"
    by (simp add: example_group_def example_group_alt_def upt_rec [of 0])
  from under_sample_values_irrelevant [OF a, of 2] a b show ?thesis by simp
qed

text \<open>
  Claim C10. For a group of at most 7 rows and every down-sampling factor,
  \<open>under_sample\<close> returns the empty list; so in a down-sampling pass over a table with
  distinct index labels every retained row belongs to a device with more than 7 rows,
  and a device with 7 rows or fewer contributes none.
\<close>

theorem under_sample_short_group:
  "(0 < k \<and> length g \<le> 7 \<longrightarrow> under_sample g k = Inr [])
   \<and> (0 < k \<and> df \<noteq> [] \<and> distinct (map idx df) \<longrightarrow>
        (\<exists>out. under_sample_pass df k = Inr out
           \<and> (\<forall>r\<in>set out. r \<in> set df
                \<and> 7 < length (filter (\<lambda>r'. serial_number r' = serial_number r) df))))"
  using under_sample_short [of k g] under_sample_pass_retains [of k df] by blast

theorem under_sample_short_group_witness:
  "(0::int) < 2 \<and> length (example_group 7) \<le> 7 \<and> under_sample (example_group 7) 2 = Inr []
   \<and> two_devices \<noteq> [] \<and> distinct (map idx two_devices)
   \<and> length (filter (\<lambda>r. serial_number r = ''B'') two_devices) = 5
   \<and> under_sample_pass two_devices 2 =
       Inr [\<lparr>idx = 5, serial_number = ''A'', predict_val = Some 0, validate_val = Some 1\<rparr>]"
proof -
  have l: "length (example_group 7) \<le> 7" by (simp add: example_group_def)
  have n: "two_devices \<noteq> []" by (simp add: two_devices_def)
  have d: "distinct (map idx two_devices)" by code_simp
  have b: "length (filter (\<lambda>r. serial_number r = ''B'') two_devices) = 5" by code_simp
  have p: "under_sample_pass two_devices 2 =
       Inr [\<lparr>idx = 5, serial_number = ''A'', predict_val = Some 0, validate_val = Some 1\<rparr>]"
    by code_simp
  from under_sample_short_group [of 2 "example_group 7" two_devices] l n d b p
  show ?thesis by simp
qed

text \<open>
  Claim C3 as stated (every selected index has a defined trailing rolling maximum, none
  lies before position \<open>k - 1\<close>) fails: in a group of 11 rows with factor 2 the slice
  starts at position \<open>10 mod 2 = 0\<close>, where the rolling maximum over 2 rows is missing;
  and a missing \<open>predict_val\<close> makes the rolling maximum of a selected row missing as
  well.
\<close>

theorem under_sample_selects_undefined:
  "under_sample (example_group 11) 2 = Inr [100, 102]
   \<and> rolled_slice (example_group 11) 2 = [(100, None), (102, Some 0)]
   \<and> rolled_slice (example_group_alt 10) 2 = [(101, None)]"
proof (intro conjI)
  show "under_sample (example_group 11) 2 = Inr [100, 102]" by code_simp
  show "rolled_slice (example_group 11) 2 = [(100, None), (102, Some 0)]" by code_simp
  show "rolled_slice (example_group_alt 10) 2 = [(101, None)]" by code_simp
qed

text \<open>
  Claim C3, as amended. In a group of \<open>L\<close> rows none of whose \<open>predict_val\<close> is missing,
  with a factor \<open>k \<ge> 1\<close>, a selected index has a defined trailing \<open>k\<close>-row rolling maximum exactly
  when its position is at least \<open>k - 1\<close>; no selected position is earlier than
  \<open>(L - 1) mod k\<close>; and when \<open>k\<close> divides \<open>L\<close> that offset is \<open>k - 1\<close>, so that every
  selected index has a defined rolling maximum.
\<close>

theorem under_sample_rolling_defined:
  assumes k: "0 < k" and present: "\<forall>r\<in>set df. predict_val r \<noteq> None"
  shows "rolled_slice df k =
           map (\<lambda>p. (idx (df ! p), rolling_max (nat k) (map predict_val df) ! p))
             (selected_positions (length df) k)
    \<and> (\<forall>p\<in>set (selected_positions (length df) k).
          nat ((int (length df) - 1) mod k) \<le> p
          \<and> (rolling_max (nat k) (map predict_val df) ! p \<noteq> None \<longleftrightarrow> nat k \<le> p + 1))
    \<and> (k dvd int (length df) \<longrightarrow>
          (\<forall>p\<in>set (selected_positions (length df) k). nat k \<le> p + 1)
          \<and> (\<forall>(i, m)\<in>set (rolled_slice df k). m \<noteq> None))"
proof -
  let ?vs = "map predict_val df" and ?ps = "selected_positions (length df) k"
  have nk: "0 < nat k" using k by simp
  from present have vs: "None \<notin> set ?vs" by auto
  have def_iff: "rolling_max (nat k) ?vs ! p \<noteq> None \<longleftrightarrow> nat k \<le> p + 1" if "p \<in> set ?ps" for p
    using rolling_max_defined_iff [OF nk _ vs, of p] selected_positions_less [OF that] by simp
  have late: "nat k \<le> p + 1" if dv: "k dvd int (length df)" and p: "p \<in> set ?ps" for p
  proof -
    from selected_positions_less [OF p] have "0 < length df" by (cases df) auto
    from offset_when_divides [OF k this dv] selected_positions_offset [OF k p]
    show ?thesis by linarith
  qed
  have a: "rolled_slice df k = map (\<lambda>p. (idx (df ! p), rolling_max (nat k) ?vs ! p)) ?ps"
    by (rule rolled_slice_positions)
  have b: "\<forall>p\<in>set ?ps. nat ((int (length df) - 1) mod k) \<le> p
          \<and> (rolling_max (nat k) ?vs ! p \<noteq> None \<longleftrightarrow> nat k \<le> p + 1)"
    using selected_positions_offset [OF k] def_iff by blast
  have c: "k dvd int (length df) \<longrightarrow>
          (\<forall>p\<in>set ?ps. nat k \<le> p + 1) \<and> (\<forall>(i, m)\<in>set (rolled_slice df k). m \<noteq> None)"
    using late def_iff unfolding a by auto
  from a b c show ?thesis by blast
qed

theorem under_sample_rolling_defined_witness:
  "(0::int) < 2 \<and> list_all (\<lambda>r. predict_val r \<noteq> None) (example_group 10)
   \<and> (2::int) dvd int (length (example_group 10))
   \<and> selected_positions (length (example_group 10)) 2 = [1]
   \<and> rolled_slice (example_group 10) 2 = [(101, Some 0)]"
proof -
  have h: "\<forall>r\<in>set (example_group 10). predict_val r \<noteq> None"
    by (simp add: example_group_def)
  have a: "list_all (\<lambda>r. predict_val r \<noteq> None) (example_group 10)"
    using h by (simp add: list_all_iff)
  have l: "length (example_group 10) = 10" by (simp add: example_group_def)
  have s: "selected_positions 10 2 = [1]" by code_simp
  have r: "rolled_slice (example_group 10) 2 = [(101, Some 0)]" by code_simp
  from under_sample_rolling_defined [of 2 "example_group 10", OF _ h] a l s r
  show ?thesis by simp
qed

subsection \<open>WindowBuilder, Hybrid branch\<close>








subsection \<open>ColumnReconciler\<close>

lemma rename_columns_sorted: "sorted (rename_columns cs)"
  by (simp add: rename_columns_def)

lemma rename_loop_length: "length (rename_loop cs count cols) = length cs + length cols"
  by (induction cs arbitrary: count cols) (simp_all add: Let_def)

lemma rename_columns_length: "length (rename_columns cs) = length cs"
  by (simp add: rename_columns_def rename_loop_length)

text \<open>
  The loop follows the renaming rule, and the schema is free of duplicates exactly when
  no column is named like a renamed occurrence of another one.
\<close>

declare str_nat.simps [simp del]

lemma digits_value_str_nat: "digits_value (str_nat n) = n"
proof (induction n rule: str_nat.induct)
  case (1 n)
  show ?case
  proof (cases "n < 10")
    case True
    then show ?thesis by (subst str_nat.simps) (simp add: digits_value_def)
  next
    case False
    with 1 have "digits_value (str_nat (n div 10)) = n div 10" by simp
    with False show ?thesis
      by (subst str_nat.simps) (simp add: digits_value_def)
  qed
qed

lemma str_nat_inject: "str_nat n = str_nat m \<Longrightarrow> n = m"
  by (metis digits_value_str_nat)

lemma digit_not_underscore: "d < 10 \<Longrightarrow> char_of (48 + d :: nat) \<noteq> CHR ''_''"
proof
  assume d: "d < 10" and "char_of (48 + d) = CHR ''_''"
  then have "(of_char (char_of (48 + d)) :: nat) = of_char CHR ''_''" by simp
  with d show False by simp
qed

lemma str_nat_no_underscore: "CHR ''_'' \<notin> set (str_nat n)"
proof (induction n rule: str_nat.induct)
  case (1 n)
  show ?case
  proof (cases "n < 10")
    case True
    then show ?thesis using digit_not_underscore [of n] by (subst str_nat.simps) auto
  next
    case False
    with 1 have "CHR ''_'' \<notin> set (str_nat (n div 10))" by simp
    with False show ?thesis using digit_not_underscore [of "n mod 10"]
      by (subst str_nat.simps) auto
  qed
qed

lemma split_last_underscore:
  assumes eq: "a @ ''_'' @ d = a' @ ''_'' @ d'"
    and d: "CHR ''_'' \<notin> set d" and d': "CHR ''_'' \<notin> set d'"
  shows "a = a' \<and> d = d'"
proof -
  from eq have "rev d @ CHR ''_'' # rev a = rev d' @ CHR ''_'' # rev a'"
    by (metis append_Cons append_Nil rev.simps(2) rev_append rev_rev_ident append_assoc)
  then have "takeWhile (\<lambda>c. c \<noteq> CHR ''_'') (rev d @ CHR ''_'' # rev a)
      = takeWhile (\<lambda>c. c \<noteq> CHR ''_'') (rev d' @ CHR ''_'' # rev a')" by simp
  moreover have "takeWhile (\<lambda>c. c \<noteq> CHR ''_'') (rev d @ CHR ''_'' # rev a) = rev d"
    using d by (auto simp: takeWhile_tail)
  moreover have "takeWhile (\<lambda>c. c \<noteq> CHR ''_'') (rev d' @ CHR ''_'' # rev a') = rev d'"
    using d' by (auto simp: takeWhile_tail)
  ultimately have "d = d'" by simp
  with eq show ?thesis by simp
qed

lemma suffixed_inject:
  assumes "suffixed c i = suffixed c' i'" "1 < i" "1 < i'"
  shows "c = c' \<and> i = i'"
  using assms split_last_underscore [of c "str_nat i" c' "str_nat i'"]
  by (auto simp: suffixed_def str_nat_no_underscore dest: str_nat_inject)

lemma rename_loop_eq:
  "rename_loop cs count cols =
     cols @ map (\<lambda>j. suffixed (cs ! j)
                  ((case count (cs ! j) of None \<Rightarrow> 0 | Some n \<Rightarrow> n) + occurrence cs j))
              [0..<length cs]"
proof (induction cs arbitrary: count cols)
  case Nil
  show ?case by simp
next
  case (Cons c cs)
  let ?n = "(case count c of None \<Rightarrow> 0 | Some n \<Rightarrow> n) + 1"
  let ?count = "count(c \<mapsto> ?n)"
  have tail: "(case ?count (cs ! j) of None \<Rightarrow> 0 | Some n \<Rightarrow> n) + occurrence cs j
      = (case count ((c # cs) ! Suc j) of None \<Rightarrow> 0 | Some n \<Rightarrow> n) + occurrence (c # cs) (Suc j)"
    for j
    by (simp add: occurrence_def)
  have up: "[0..<length (c # cs)] = 0 # map Suc [0..<length cs]"
    by (simp add: upt_conv_Cons map_Suc_upt del: upt_Suc)
  have "rename_loop (c # cs) count cols = rename_loop cs ?count (cols @ [suffixed c ?n])"
    by (simp add: Let_def suffixed_def)
  also have "\<dots> = (cols @ [suffixed c ?n]) @
      map (\<lambda>j. suffixed (cs ! j)
             ((case ?count (cs ! j) of None \<Rightarrow> 0 | Some n \<Rightarrow> n) + occurrence cs j)) [0..<length cs]"
    by (rule Cons.IH)
  also have "\<dots> = cols @ map (\<lambda>j. suffixed ((c # cs) ! j)
        ((case count ((c # cs) ! j) of None \<Rightarrow> 0 | Some n \<Rightarrow> n) + occurrence (c # cs) j))
      [0..<length (c # cs)]"
    unfolding up by (simp add: tail comp_def) (simp add: occurrence_def)
  finally show ?case .
qed

lemma rename_columns_rule:
  "rename_columns cs = sort (map (\<lambda>j. suffixed (cs ! j) (occurrence cs j)) [0..<length cs])"
  by (simp add: rename_columns_def rename_loop_eq)


lemma occurrence_pos: "j < length cs \<Longrightarrow> 1 \<le> occurrence cs j"
  by (simp add: occurrence_def take_Suc_conv_app_nth)

lemma count_list_take_le: "count_list (take k cs) c \<le> count_list cs c"
proof -
  have "count_list (take k cs @ drop k cs) c = count_list (take k cs) c + count_list (drop k cs) c"
    by (rule count_list_append)
  then show ?thesis by simp
qed

lemma occurrence_le: "occurrence cs j \<le> count_list cs (cs ! j)"
  unfolding occurrence_def by (rule count_list_take_le)

lemma occurrence_less:
  assumes jj: "j < j'" and j': "j' < length cs" and eq: "cs ! j = cs ! j'"
  shows "occurrence cs j < occurrence cs j'"
proof -
  let ?t = "take (j' - j) (drop (Suc j) cs)"
  from jj have "Suc j' = Suc j + (j' - j)" by simp
  then have split: "take (Suc j') cs = take (Suc j) cs @ ?t"
    by (simp only: take_add)
  from jj j' have len: "j' - Suc j < length ?t" by simp
  from jj j' have "?t ! (j' - Suc j) = cs ! j'" by simp
  with nth_mem [OF len] have "cs ! j' \<in> set ?t" by simp
  then have "count_list ?t (cs ! j') \<noteq> 0" by (simp add: count_list_0_iff)
  then show ?thesis
    unfolding occurrence_def split using eq by simp
qed

lemma occurrence_snoc: "j < length cs \<Longrightarrow> occurrence (cs @ [x]) j = occurrence cs j"
  by (simp add: occurrence_def nth_append)

lemma occurrence_exists:
  "1 \<le> i \<Longrightarrow> i \<le> count_list cs c \<Longrightarrow> \<exists>j<length cs. cs ! j = c \<and> occurrence cs j = i"
proof (induction cs rule: rev_induct)
  case Nil
  then show ?case by simp
next
  case (snoc x cs)
  show ?case
  proof (cases "x = c \<and> i = count_list (cs @ [x]) c")
    case True
    then have "(cs @ [x]) ! length cs = c \<and> occurrence (cs @ [x]) (length cs) = i"
      by (simp add: occurrence_def)
    then show ?thesis by (intro exI [of _ "length cs"]) auto
  next
    case False
    with snoc.prems have "i \<le> count_list cs c" by (auto split: if_splits)
    from snoc.IH [OF snoc.prems(1) this] obtain j where j: "j < length cs" "cs ! j = c"
      "occurrence cs j = i" by blast
    then show ?thesis
      by (intro exI [of _ j]) (simp add: occurrence_snoc nth_append)
  qed
qed

lemma rename_columns_distinct_iff: "distinct (rename_columns cs) \<longleftrightarrow> \<not> name_clash cs"
proof -
  let ?f = "\<lambda>j. suffixed (cs ! j) (occurrence cs j)"
  have d: "distinct (rename_columns cs) \<longleftrightarrow> inj_on ?f {0..<length cs}"
    by (simp add: rename_columns_rule distinct_map)
  have same: False if "j < length cs" "j' < length cs" "j \<noteq> j'" "cs ! j = cs ! j'"
    "occurrence cs j = occurrence cs j'" for j j'
    using that occurrence_less [of j j' cs] occurrence_less [of j' j cs]
    by (cases "j < j'") auto
  show ?thesis
  proof
    assume dist: "distinct (rename_columns cs)"
    show "\<not> name_clash cs"
    proof
      assume "name_clash cs"
      then obtain c c' i where c: "c \<in> set cs" and c': "c' \<in> set cs"
        and i: "2 \<le> i" "i \<le> count_list cs c'" and eq: "c = c' @ ''_'' @ str_nat i"
        by (auto simp: name_clash_def)
      from c have "count_list cs c \<noteq> 0" by (simp add: count_list_0_iff)
      then have "1 \<le> count_list cs c" by simp
      from occurrence_exists [OF _ this] obtain j where j: "j < length cs" "cs ! j = c"
        "occurrence cs j = 1" by auto
      from i occurrence_exists [of i cs c'] obtain j' where j': "j' < length cs" "cs ! j' = c'"
        "occurrence cs j' = i" by auto
      from j j' i eq have "?f j = ?f j'" by (simp add: suffixed_def)
      moreover from j j' i have "j \<noteq> j'" by auto
      ultimately have "\<not> inj_on ?f {0..<length cs}"
        using j(1) j'(1) by (meson atLeastLessThan_iff inj_onD zero_le)
      with d dist show False by simp
    qed
  next
    assume nc: "\<not> name_clash cs"
    have "inj_on ?f {0..<length cs}"
    proof (rule inj_onI)
      fix j j' assume jj: "j \<in> {0..<length cs}" "j' \<in> {0..<length cs}" and eq: "?f j = ?f j'"
      then have lj: "j < length cs" and lj': "j' < length cs" by simp_all
      have clash: False if a: "a < length cs" and b: "b < length cs"
        and one: "occurrence cs a = 1" and more: "1 < occurrence cs b"
        and e: "suffixed (cs ! a) (occurrence cs a) = suffixed (cs ! b) (occurrence cs b)" for a b
      proof -
        from e one more have "cs ! a = cs ! b @ ''_'' @ str_nat (occurrence cs b)"
          by (simp add: suffixed_def)
        moreover have "cs ! a \<in> set cs" "cs ! b \<in> set cs" using a b by simp_all
        moreover have "occurrence cs b \<in> {2..count_list cs (cs ! b)}"
          using more occurrence_le [of cs b] by simp
        ultimately have "name_clash cs" unfolding name_clash_def by blast
        with nc show False ..
      qed
      show "j = j'"
      proof (rule ccontr)
        assume ne: "j \<noteq> j'"
        from occurrence_pos [OF lj] occurrence_pos [OF lj']
        consider "occurrence cs j = 1" "occurrence cs j' = 1"
          | "occurrence cs j = 1" "1 < occurrence cs j'"
          | "1 < occurrence cs j" "occurrence cs j' = 1"
          | "1 < occurrence cs j" "1 < occurrence cs j'" by linarith
        then show False
        proof cases
          case 1
          with eq have "cs ! j = cs ! j'" by (simp add: suffixed_def)
          with same [OF lj lj' ne] 1 show False by simp
        next
          case 2
          from clash [OF lj lj' 2 eq] show False .
        next
          case 3
          from clash [OF lj' lj 3(2) 3(1) eq [symmetric]] show False .
        next
          case 4
          from suffixed_inject [OF eq 4] same [OF lj lj' ne] show False by simp
        qed
      qed
    qed
    with d show "distinct (rename_columns cs)" by simp
  qed
qed

text \<open>
  Claim C6. After \<open>rename_columns\<close> the column labels are sorted, the \<open>i\<close>-th occurrence
  of a name being renamed to \<open>col_i\<close>, and they are meant to hold no name twice. They do
  hold one twice when the table has a column named like another one followed by \<open>_2\<close>:
  with features \<open>x\<close> and \<open>x_2\<close> and Full overlap of depth 2, the second \<open>x\<close> is renamed to
  \<open>x_2\<close>, the name the first \<open>x_2\<close> keeps.
\<close>

theorem rename_columns_duplicate:
  "rename_columns (full_columns base_example 2) =
     [''capacity_bytes'', ''capacity_bytes_2'', ''date'', ''date_2'', ''failure'', ''failure_2'',
      ''index'', ''index_2'', ''model'', ''model_2'', ''predict_val'', ''predict_val_2'',
      ''serial_number'', ''serial_number_2'', ''validate_val'', ''validate_val_2'',
      ''x'', ''x_2'', ''x_2'', ''x_2_2'']
   \<and> \<not> distinct (rename_columns (full_columns base_example 2))"
proof
  show e: "rename_columns (full_columns base_example 2) =
     [''capacity_bytes'', ''capacity_bytes_2'', ''date'', ''date_2'', ''failure'', ''failure_2'',
      ''index'', ''index_2'', ''model'', ''model_2'', ''predict_val'', ''predict_val_2'',
      ''serial_number'', ''serial_number_2'', ''validate_val'', ''validate_val_2'',
      ''x'', ''x_2'', ''x_2'', ''x_2_2'']"
    by code_simp
  show "\<not> distinct (rename_columns (full_columns base_example 2))"
    unfolding e by simp
qed

subsection \<open>ValidityFilter\<close>

text \<open>
  Claim C7. When \<open>date\<close>, \<open>serial_number\<close> and \<open>capacity_bytes\<close> are all columns of the
  frame, the step keeps exactly the rows with no missing value in any of the three (and
  reports how many it dropped); when one of them is absent it reports exactly the absent
  names, in the order \<open>date\<close>, \<open>serial_number\<close>, \<open>capacity_bytes\<close>, and returns the frame
  as it was, so that no row is removed; a frame lacking only \<open>capacity_bytes\<close> gives the
  report \<open>['capacity_bytes']\<close>.
\<close>

theorem drop_missing_essential_cases:
  fixes df :: "'v frame"
  shows "(set essential_columns \<subseteq> set (columns df) \<longrightarrow>
       columns (fst (drop_missing_essential df)) = columns df
     \<and> rows (fst (drop_missing_essential df)) =
         filter (\<lambda>r. r ''date'' \<noteq> None \<and> r ''serial_number'' \<noteq> None \<and> r ''capacity_bytes'' \<noteq> None)
           (rows df)
     \<and> snd (drop_missing_essential df) =
         Dropped (length (rows df) - length (rows (fst (drop_missing_essential df)))))
   \<and> (\<not> set essential_columns \<subseteq> set (columns df) \<longrightarrow>
       drop_missing_essential df =
         (df, MissingColumns (filter (\<lambda>col. col \<notin> set (columns df))
                [''date'', ''serial_number'', ''capacity_bytes''])))
   \<and> (''date'' \<in> set (columns df) \<and> ''serial_number'' \<in> set (columns df)
        \<and> ''capacity_bytes'' \<notin> set (columns df) \<longrightarrow>
       drop_missing_essential df = (df, MissingColumns [''capacity_bytes'']))"
proof (intro conjI impI)
  assume "set essential_columns \<subseteq> set (columns df)"
  then have m: "filter (\<lambda>col. col \<notin> set (columns df)) essential_columns = []"
    by (auto simp: filter_empty_conv)
  show "columns (fst (drop_missing_essential df)) = columns df"
    using m by (simp add: drop_missing_essential_def dropna_subset_def Let_def)
  show "rows (fst (drop_missing_essential df)) =
         filter (\<lambda>r. r ''date'' \<noteq> None \<and> r ''serial_number'' \<noteq> None \<and> r ''capacity_bytes'' \<noteq> None)
           (rows df)"
    using m by (simp add: drop_missing_essential_def dropna_subset_def Let_def essential_columns_def)
  show "snd (drop_missing_essential df) =
         Dropped (length (rows df) - length (rows (fst (drop_missing_essential df))))"
    using m by (simp add: drop_missing_essential_def Let_def)
next
  assume "\<not> set essential_columns \<subseteq> set (columns df)"
  then have "filter (\<lambda>col. col \<notin> set (columns df)) essential_columns \<noteq> []"
    by (auto simp: filter_empty_conv)
  then show "drop_missing_essential df =
         (df, MissingColumns (filter (\<lambda>col. col \<notin> set (columns df))
                [''date'', ''serial_number'', ''capacity_bytes'']))"
    by (simp add: drop_missing_essential_def Let_def essential_columns_def)
next
  assume "''date'' \<in> set (columns df) \<and> ''serial_number'' \<in> set (columns df)
        \<and> ''capacity_bytes'' \<notin> set (columns df)"
  then show "drop_missing_essential df = (df, MissingColumns [''capacity_bytes''])"
    by (simp add: drop_missing_essential_def Let_def essential_columns_def)
qed

theorem drop_missing_essential_cases_witness:
  "''date'' \<in> set (columns frame_example) \<and> ''serial_number'' \<in> set (columns frame_example)
   \<and> ''capacity_bytes'' \<notin> set (columns frame_example)
   \<and> drop_missing_essential frame_example = (frame_example, MissingColumns [''capacity_bytes''])
   \<and> set essential_columns \<subseteq> set (columns (frame_example\<lparr>columns := essential_columns\<rparr>))
   \<and> rows (fst (drop_missing_essential (frame_example\<lparr>columns := essential_columns\<rparr>))) = []"
proof -
  have a: "rows (fst (drop_missing_essential (frame_example\<lparr>columns := essential_columns\<rparr>))) =
      filter (\<lambda>r. r ''date'' \<noteq> None \<and> r ''serial_number'' \<noteq> None \<and> r ''capacity_bytes'' \<noteq> None)
        (rows (frame_example\<lparr>columns := essential_columns\<rparr>))"
    using drop_missing_essential_cases [of "frame_example\<lparr>columns := essential_columns\<rparr>"]
    by simp
  from drop_missing_essential_cases [of frame_example] a show ?thesis
    by (simp add: frame_example_def essential_columns_def)
qed

subsection \<open>Reshaper\<close>







end
